theory Spec2Isabelle
  imports Main "HOL-Library.AList"
begin

section \<open>Python values and built-ins used by \<open>util.py\<close>\<close>

text \<open>
  Exceptions are values: every function of the source that can raise returns
  \<open>py_error + 'a\<close>, with \<open>Inl\<close> for the exception.
\<close>

datatype py_error = ValueError | TypeError | ZeroDivisionError | IndexError

text \<open>
  Python's \<open>//\<close> and \<open>%\<close> on integers round towards minus infinity, as \<open>div\<close> and
  \<open>mod\<close> on \<open>int\<close> do; a zero divisor raises.
\<close>

definition py_floordiv :: "int \<Rightarrow> int \<Rightarrow> py_error + int" where
  "py_floordiv a b = (if b = 0 then Inl ZeroDivisionError else Inr (a div b))"

definition py_mod :: "int \<Rightarrow> int \<Rightarrow> py_error + int" where
  "py_mod a b = (if b = 0 then Inl ZeroDivisionError else Inr (a mod b))"

text \<open>
  A slice \<open>xs[lo:hi]\<close>: a negative bound counts from the end, and every bound is
  clamped to \<open>0..len(xs)\<close>; a slice never raises.
\<close>

definition slice_bound :: "nat \<Rightarrow> int \<Rightarrow> nat" where
  "slice_bound n i = (if i < 0 then nat (max (i + int n) 0) else min (nat i) n)"

definition py_slice :: "'a list \<Rightarrow> int \<Rightarrow> int \<Rightarrow> 'a list" where
  "py_slice xs lo hi =
     drop (slice_bound (length xs) lo) (take (slice_bound (length xs) hi) xs)"

section \<open>The batch iterator \<open>DatasetIterater\<close>\<close>

text \<open>
  The fields \<open>device\<close> and \<open>model_name\<close> are read by \<open>_to_tensor\<close> only, which
  hands the columns of a slice of records to the tensor library. A yielded batch is
  represented by the slice of records that \<open>__next__\<close> passes to \<open>_to_tensor\<close>.
\<close>

record 'a DatasetIterater =
  batch_size :: int
  batches :: "'a list"
  n_batches :: int
  residue :: bool
  index :: int

text \<open>
  \<open>__init__\<close>: \<open>n_batches = len(batches) // batch_size\<close>, then
  \<open>residue\<close> is set when \<open>len(batches) % n_batches != 0\<close>.
\<close>

definition DatasetIterater_init :: "'a list \<Rightarrow> int \<Rightarrow> py_error + 'a DatasetIterater" where
  "DatasetIterater_init bs b =
     (case py_floordiv (int (length bs)) b of
        Inl e \<Rightarrow> Inl e
      | Inr nb \<Rightarrow>
          (case py_mod (int (length bs)) nb of
             Inl e \<Rightarrow> Inl e
           | Inr r \<Rightarrow>
               Inr \<lparr>batch_size = b, batches = bs, n_batches = nb,
                    residue = (r \<noteq> 0), index = 0\<rparr>))"

text \<open>
  \<open>__next__\<close>: \<open>None\<close> is \<open>StopIteration\<close>; the iterator is returned with its
  cursor updated in both cases.
\<close>

definition DatasetIterater_next ::
    "'a DatasetIterater \<Rightarrow> 'a list option \<times> 'a DatasetIterater" where
  "DatasetIterater_next it =
     (if residue it \<and> index it = n_batches it then
        (Some (py_slice (batches it) (index it * batch_size it) (int (length (batches it)))),
         it\<lparr>index := index it + 1\<rparr>)
      else if index it > n_batches it then
        (None, it\<lparr>index := 0\<rparr>)
      else
        (Some (py_slice (batches it) (index it * batch_size it)
                 ((index it + 1) * batch_size it)),
         it\<lparr>index := index it + 1\<rparr>))"

definition DatasetIterater_len :: "'a DatasetIterater \<Rightarrow> int" where
  "DatasetIterater_len it = (if residue it then n_batches it + 1 else n_batches it)"

text \<open>
  A \<open>for\<close> loop over the iterator: \<open>__next__\<close> is called until it raises
  \<open>StopIteration\<close>. The result is the list of yielded batches and the iterator as
  the loop leaves it.
\<close>

function iterate :: "'a DatasetIterater \<Rightarrow> 'a list list \<times> 'a DatasetIterater" where
  "iterate it =
     (case DatasetIterater_next it of
        (None, it') \<Rightarrow> ([], it')
      | (Some b, it') \<Rightarrow> (case iterate it' of (bs, it'') \<Rightarrow> (b # bs, it'')))"
  by pat_completeness auto
termination
  by (relation "measure (\<lambda>it. nat (n_batches it + 1 - index it))")
     (auto simp: DatasetIterater_next_def split: if_splits)

text \<open>The constructor followed by one full pass; the record counts of the batches.\<close>

definition build_iterator_sizes :: "'a list \<Rightarrow> int \<Rightarrow> py_error + nat list" where
  "build_iterator_sizes bs b =
     (case DatasetIterater_init bs b of
        Inl e \<Rightarrow> Inl e
      | Inr it \<Rightarrow> Inr (map length (fst (iterate it))))"

section \<open>Strings\<close>

text \<open>
  A Python \<open>str\<close> is modelled by \<open>string\<close>, one \<open>char\<close> for one character (the
  code points below 256). \<open>str.strip()\<close> removes the characters Python counts as
  whitespace from both ends; \<open>str.split(sep)\<close> with a one-character separator keeps
  empty fields and always returns at least one field.
\<close>

definition isspace :: "char \<Rightarrow> bool" where
  "isspace c =
     (let n = (of_char c :: nat)
      in (9 \<le> n \<and> n \<le> 13) \<or> (28 \<le> n \<and> n \<le> 32) \<or> n = 133 \<or> n = 160)"

definition strip :: "string \<Rightarrow> string" where
  "strip s = rev (dropWhile isspace (rev (dropWhile isspace s)))"

fun py_split :: "char \<Rightarrow> string \<Rightarrow> string list" where
  "py_split sep [] = [[]]"
| "py_split sep (c # cs) =
     (if c = sep then [] # py_split sep cs
      else (case py_split sep cs of
              w # ws \<Rightarrow> (c # w) # ws
            | [] \<Rightarrow> [[c]]))"

definition tab :: char where
  "tab = CHR 0x09"

text \<open>
  \<open>int(s)\<close> on a string, base ten: whitespace around the literal is dropped (the
  built-in's own whitespace set, which lacks the separators 28 to 31), then an
  optional sign, then decimal digits that single underscores may separate. Anything
  else raises \<open>ValueError\<close>, here \<open>None\<close>.
\<close>

definition int_space :: "char \<Rightarrow> bool" where
  "int_space c =
     (let n = (of_char c :: nat)
      in (9 \<le> n \<and> n \<le> 13) \<or> n = 32 \<or> n = 133 \<or> n = 160)"

definition isdigit :: "char \<Rightarrow> bool" where
  "isdigit c = (let n = (of_char c :: nat) in 48 \<le> n \<and> n \<le> 57)"

definition digit_val :: "char \<Rightarrow> int" where
  "digit_val c = int (of_char c) - 48"

fun digits_ok :: "string \<Rightarrow> bool" where
  "digits_ok [] = False"
| "digits_ok [c] = isdigit c"
| "digits_ok (c # d # cs) =
     (isdigit c \<and> (if d = CHR ''_'' then digits_ok cs else digits_ok (d # cs)))"

definition digits_value :: "string \<Rightarrow> int" where
  "digits_value ds =
     foldl (\<lambda>acc c. 10 * acc + digit_val c) 0 (filter (\<lambda>c. c \<noteq> CHR ''_'') ds)"

definition py_int :: "string \<Rightarrow> int option" where
  "py_int s =
     (let t = rev (dropWhile int_space (rev (dropWhile int_space s)))
      in (case t of
            [] \<Rightarrow> None
          | c # r \<Rightarrow>
              if c = CHR ''-'' then
                (if digits_ok r then Some (- digits_value r) else None)
              else if c = CHR ''+'' then
                (if digits_ok r then Some (digits_value r) else None)
              else (if digits_ok t then Some (digits_value t) else None)))"

section \<open>Reserved tokens and tokenizers\<close>

definition UNK :: string where
  "UNK = ''<UNK>''"

definition PAD :: string where
  "PAD = ''<PAD>''"

definition CLS :: string where
  "CLS = ''[CLS]''"

text \<open>\<open>build_dataset\<close> picks \<open>x.split(' ')\<close> (word level) or \<open>[y for y in x]\<close>.\<close>

definition word_tokenizer :: "string \<Rightarrow> string list" where
  "word_tokenizer x = py_split (CHR '' '') x"

definition char_tokenizer :: "string \<Rightarrow> string list" where
  "char_tokenizer x = map (\<lambda>y. [y]) x"

section \<open>\<open>build_vocab\<close>\<close>

text \<open>
  A \<open>dict\<close> is an association list with distinct keys in insertion order:
  \<open>d[k] = v\<close> is \<open>AList.update\<close> (an existing key keeps its place, a new one goes
  last), \<open>d.get(k)\<close> is \<open>map_of\<close>, \<open>d.items()\<close> is the list itself.
  The file is given by the lines its iteration yields.
\<close>

fun count_tokens :: "(string \<times> int) list \<Rightarrow> string list \<Rightarrow> (string \<times> int) list" where
  "count_tokens vocab_dict [] = vocab_dict"
| "count_tokens vocab_dict (word # ws) =
     count_tokens
       (AList.update word ((case map_of vocab_dict word of None \<Rightarrow> 0 | Some c \<Rightarrow> c) + 1)
          vocab_dict) ws"

fun count_lines ::
    "(string \<Rightarrow> string list) \<Rightarrow> (string \<times> int) list \<Rightarrow> string list \<Rightarrow> (string \<times> int) list" where
  "count_lines tokenizer vocab_dict [] = vocab_dict"
| "count_lines tokenizer vocab_dict (l # ls) =
     (if strip l = [] then count_lines tokenizer vocab_dict ls
      else count_lines tokenizer
             (count_tokens vocab_dict (tokenizer (hd (py_split tab (strip l))))) ls)"

text \<open>The comprehension \<open>{word_count[0]: idx for idx, word_count in enumerate(vocab_list)}\<close>.\<close>

fun assign_ids ::
    "(string \<times> int) list \<Rightarrow> int \<Rightarrow> (string \<times> int) list \<Rightarrow> (string \<times> int) list" where
  "assign_ids vocab_dict idx [] = vocab_dict"
| "assign_ids vocab_dict idx (word_count # rest) =
     assign_ids (AList.update (fst word_count) idx vocab_dict) (idx + 1) rest"

text \<open>
  \<open>sorted(..., key=lambda x: x[1], reverse=True)\<close> is stable, so it is the stable
  sort on the negated count.
\<close>

definition build_vocab ::
    "string list \<Rightarrow> (string \<Rightarrow> string list) \<Rightarrow> int \<Rightarrow> int \<Rightarrow> (string \<times> int) list" where
  "build_vocab lines tokenizer max_size min_freq =
     (let counts = count_lines tokenizer [] lines;
          vocab_list =
            py_slice (sort_key (\<lambda>x. - snd x) (filter (\<lambda>item. snd item \<ge> min_freq) counts))
              0 max_size;
          vocab_dict = assign_ids [] 0 vocab_list;
          n = int (length vocab_dict)
      in AList.update PAD (n + 1) (AList.update UNK n vocab_dict))"

text \<open>
  The tokens that \<open>build_vocab\<close> counts: those of the text before the first tab of
  every line that is not blank.
\<close>

definition corpus_tokens :: "(string \<Rightarrow> string list) \<Rightarrow> string list \<Rightarrow> string list" where
  "corpus_tokens tokenizer lines =
     concat (map (\<lambda>l. tokenizer (hd (py_split tab (strip l))))
               (filter (\<lambda>l. strip l \<noteq> []) lines))"

section \<open>N-gram hashes\<close>

text \<open>
  \<open>sequence[i]\<close> raises \<open>IndexError\<close> out of range. An element of the id sequence
  is an \<open>int\<close> or \<open>None\<close> (\<open>vocab.get\<close> of a missing key); \<open>None * 14918087\<close>
  raises \<open>TypeError\<close>.
\<close>

definition py_getitem :: "'a list \<Rightarrow> int \<Rightarrow> py_error + 'a" where
  "py_getitem xs i =
     (let n = int (length xs); j = (if i < 0 then i + n else i)
      in if 0 \<le> j \<and> j < n then Inr (xs ! nat j) else Inl IndexError)"

definition biGramHash :: "int option list \<Rightarrow> int \<Rightarrow> int \<Rightarrow> py_error + int" where
  "biGramHash sequence t buckets =
     (case (if t - 1 \<ge> 0 then py_getitem sequence (t - 1) else Inr (Some 0)) of
        Inl e \<Rightarrow> Inl e
      | Inr None \<Rightarrow> Inl TypeError
      | Inr (Some t1) \<Rightarrow> py_mod (t1 * 14918087) buckets)"

definition triGramHash :: "int option list \<Rightarrow> int \<Rightarrow> int \<Rightarrow> py_error + int" where
  "triGramHash sequence t buckets =
     (case (if t - 1 \<ge> 0 then py_getitem sequence (t - 1) else Inr (Some 0)) of
        Inl e \<Rightarrow> Inl e
      | Inr t1 \<Rightarrow>
          (case (if t - 2 \<ge> 0 then py_getitem sequence (t - 2) else Inr (Some 0)) of
             Inl e \<Rightarrow> Inl e
           | Inr None \<Rightarrow> Inl TypeError
           | Inr (Some t2) \<Rightarrow>
               (case t1 of
                  None \<Rightarrow> Inl TypeError
                | Some t1' \<Rightarrow> py_mod (t2 * 14918087 * 18408749 + t1' * 14918087) buckets)))"

section \<open>The generic line encoder: \<open>build_dataset.load_dataset\<close>\<close>

text \<open>
  After padding, the list \<open>token\<close> holds the strings of the tokenizer followed by
  copies of the value \<open>vocab.get(PAD)\<close>, an \<open>int\<close> or \<open>None\<close>.
\<close>

datatype pyval = PStr string | PInt int | PNone

definition of_get :: "int option \<Rightarrow> pyval" where
  "of_get v = (case v of None \<Rightarrow> PNone | Some i \<Rightarrow> PInt i)"

text \<open>
  \<open>vocab.get(word, vocab.get(UNK))\<close>: the keys of the vocabulary are strings, so a
  key that is an \<open>int\<close> or \<open>None\<close> is never found.
\<close>

definition vocab_get :: "(string \<times> int) list \<Rightarrow> pyval \<Rightarrow> int option" where
  "vocab_get vocab word =
     (case word of
        PStr w \<Rightarrow> (case map_of vocab w of Some i \<Rightarrow> Some i | None \<Rightarrow> map_of vocab UNK)
      | PInt i \<Rightarrow> map_of vocab UNK
      | PNone \<Rightarrow> map_of vocab UNK)"

text \<open>The \<open>if pad_size:\<close> block: the padded or cut token list and \<open>seq_len\<close>.\<close>

definition pad_tokens :: "(string \<times> int) list \<Rightarrow> pyval list \<Rightarrow> int \<Rightarrow> pyval list \<times> int" where
  "pad_tokens vocab token pad_size =
     (if pad_size \<noteq> 0 then
        (if int (length token) < pad_size then
           (token @ replicate (nat (pad_size - int (length token))) (of_get (map_of vocab PAD)),
            int (length token))
         else (py_slice token 0 pad_size, pad_size))
      else (token, int (length token)))"

text \<open>The loop \<open>for i in range(pad_size)\<close> of the FastText branch.\<close>

fun ngram_loop ::
    "int option list \<Rightarrow> int \<Rightarrow> nat list \<Rightarrow> int list \<Rightarrow> int list \<Rightarrow> py_error + (int list \<times> int list)" where
  "ngram_loop words_line buckets [] bigram trigram = Inr (bigram, trigram)"
| "ngram_loop words_line buckets (i # rest) bigram trigram =
     (case biGramHash words_line (int i) buckets of
        Inl e \<Rightarrow> Inl e
      | Inr b \<Rightarrow>
          (case triGramHash words_line (int i) buckets of
             Inl e \<Rightarrow> Inl e
           | Inr t \<Rightarrow> ngram_loop words_line buckets rest (bigram @ [b]) (trigram @ [t])))"

text \<open>
  An encoded record: \<open>(words_line, int(label), seq_len)\<close>, or with the two hash
  sequences for FastText.
\<close>

datatype encoded =
    Rec3 "int option list" int int
  | Rec5 "int option list" int int "int list" "int list"

fun words_line :: "encoded \<Rightarrow> int option list" where
  "words_line (Rec3 w y n) = w"
| "words_line (Rec5 w y n b t) = w"

fun seq_len :: "encoded \<Rightarrow> int" where
  "seq_len (Rec3 w y n) = n"
| "seq_len (Rec5 w y n b t) = n"

text \<open>
  The body of the loop over the lines: \<open>Inr None\<close> for a blank line
  (\<open>continue\<close>), the record otherwise. Unpacking \<open>line.split('\t')\<close> into two names
  and \<open>int(label)\<close> raise \<open>ValueError\<close>; \<open>int(label)\<close> is evaluated last, when the
  record is built.
\<close>

definition encode_line ::
    "(string \<times> int) list \<Rightarrow> (string \<Rightarrow> string list) \<Rightarrow> string \<Rightarrow> int \<Rightarrow> int \<Rightarrow> string
      \<Rightarrow> py_error + encoded option" where
  "encode_line vocab tokenizer model_name buckets pad_size l =
     (if strip l = [] then Inr None
      else
        (case py_split tab (strip l) of
           [content, label] \<Rightarrow>
             (case pad_tokens vocab (map PStr (tokenizer content)) pad_size of
                (token, n) \<Rightarrow>
                  (if model_name = ''FastText'' then
                     (case ngram_loop (map (vocab_get vocab) token) buckets
                             [0..<nat pad_size] [] [] of
                        Inl e \<Rightarrow> Inl e
                      | Inr (bigram, trigram) \<Rightarrow>
                          (case py_int label of
                             None \<Rightarrow> Inl ValueError
                           | Some y \<Rightarrow>
                               Inr (Some (Rec5 (map (vocab_get vocab) token) y n
                                            bigram trigram))))
                   else
                     (case py_int label of
                        None \<Rightarrow> Inl ValueError
                      | Some y \<Rightarrow> Inr (Some (Rec3 (map (vocab_get vocab) token) y n)))))
         | _ \<Rightarrow> Inl ValueError))"

fun load_loop ::
    "(string \<Rightarrow> py_error + 'r option) \<Rightarrow> string list \<Rightarrow> 'r list \<Rightarrow> py_error + 'r list" where
  "load_loop enc [] contents = Inr contents"
| "load_loop enc (l # ls) contents =
     (case enc l of
        Inl e \<Rightarrow> Inl e
      | Inr None \<Rightarrow> load_loop enc ls contents
      | Inr (Some r) \<Rightarrow> load_loop enc ls (contents @ [r]))"

definition load_dataset ::
    "(string \<times> int) list \<Rightarrow> (string \<Rightarrow> string list) \<Rightarrow> string \<Rightarrow> int \<Rightarrow> string list \<Rightarrow> int
      \<Rightarrow> py_error + encoded list" where
  "load_dataset vocab tokenizer model_name buckets lines pad_size =
     load_loop (encode_line vocab tokenizer model_name buckets pad_size) lines []"

text \<open>
  When a stripped line makes the loop body raise \<open>ValueError\<close>: \<open>line.split('\t')\<close>
  does not unpack into two names, or \<open>int\<close> rejects the second field.
\<close>

definition malformed_line :: "string \<Rightarrow> bool" where
  "malformed_line line =
     (length (py_split tab line) \<noteq> 2 \<or> py_int (py_split tab line ! 1) = None)"

text \<open>
  The same condition in the words of the specification, which splits a line at its
  first tab only: the line has no tab, or the text after the first tab does not
  parse as an integer.
\<close>

definition first_tab_label :: "string \<Rightarrow> string option" where
  "first_tab_label line =
     (if tab \<in> set line then Some (tl (dropWhile (\<lambda>c. c \<noteq> tab) line)) else None)"

definition malformed_first_tab :: "string \<Rightarrow> bool" where
  "malformed_first_tab line =
     (case first_tab_label line of None \<Rightarrow> True | Some label \<Rightarrow> py_int label = None)"

section \<open>The sub-word line encoder: \<open>build_dataset_bert.load_dataset\<close>\<close>

text \<open>
  The tokenizer of \<open>config\<close> is a parameter: \<open>tokenize\<close> and
  \<open>convert_tokens_to_ids\<close>. A record is \<open>(token_ids, int(label), seq_len, mask)\<close>.
\<close>

datatype bert_encoded =
  BertRec (bert_ids: "int list") (bert_label: int) (bert_seq_len: int) (bert_mask: "int list")

definition encode_line_bert ::
    "(string \<Rightarrow> string list) \<Rightarrow> (string list \<Rightarrow> int list) \<Rightarrow> int \<Rightarrow> string
      \<Rightarrow> py_error + bert_encoded option" where
  "encode_line_bert tokenize convert_tokens_to_ids pad_size l =
     (if strip l = [] then Inr None
      else
        (case py_split tab (strip l) of
           [content, label] \<Rightarrow>
             (let token = CLS # tokenize content;
                  ids = convert_tokens_to_ids token;
                  padded =
                    (if pad_size \<noteq> 0 then
                       (if int (length token) < pad_size then
                          (replicate (length ids) 1
                             @ replicate (nat (pad_size - int (length token))) 0,
                           ids @ replicate (nat (pad_size - int (length token))) 0)
                        else (replicate (nat pad_size) 1, py_slice ids 0 pad_size))
                     else ([], ids))
              in (case py_int label of
                    None \<Rightarrow> Inl ValueError
                  | Some y \<Rightarrow>
                      Inr (Some (BertRec (snd padded) y (int (length token)) (fst padded)))))
         | _ \<Rightarrow> Inl ValueError))"

definition load_dataset_bert ::
    "(string \<Rightarrow> string list) \<Rightarrow> (string list \<Rightarrow> int list) \<Rightarrow> string list \<Rightarrow> int
      \<Rightarrow> py_error + bert_encoded list" where
  "load_dataset_bert tokenize convert_tokens_to_ids lines pad_size =
     load_loop (encode_line_bert tokenize convert_tokens_to_ids pad_size) lines []"

section \<open>Properties of the batch iterator\<close>

declare iterate.simps [simp del]

lemma iterate_stop:
  "DatasetIterater_next it = (None, it') \<Longrightarrow> iterate it = ([], it')"
  by (simp add: iterate.simps [of it])

lemma iterate_yield:
  "DatasetIterater_next it = (Some b, it') \<Longrightarrow>
     iterate it = (b # fst (iterate it'), snd (iterate it'))"
  by (cases "iterate it'") (simp add: iterate.simps [of it])

lemma drop_take_append_drop:
  assumes "a \<le> c"
  shows "drop a (take c xs) @ drop c xs = drop a xs"
proof -
  have "drop a xs = drop a (take c xs @ drop c xs)" by simp
  also have "\<dots> = drop a (take c xs) @ drop (a - length (take c xs)) (drop c xs)"
    by (simp only: drop_append)
  also have "drop (a - length (take c xs)) (drop c xs) = drop c xs"
  proof (cases "c \<le> length xs")
    case True
    then show ?thesis using assms by (simp add: min_def)
  next
    case False
    then show ?thesis by simp
  qed
  finally show ?thesis by simp
qed

lemma py_slice_nonneg:
  assumes "0 \<le> lo" "0 \<le> hi"
  shows "py_slice xs lo hi = drop (nat lo) (take (nat hi) xs)"
proof (cases "nat lo \<le> length xs")
  case True
  then show ?thesis using assms by (simp add: py_slice_def slice_bound_def min_def)
next
  case False
  then show ?thesis using assms by (simp add: py_slice_def slice_bound_def min_def)
qed

lemma iterate_concat:
  assumes "0 < batch_size it" "0 \<le> index it" "index it \<le> n_batches it + 1"
    and "n_batches it * batch_size it \<le> int (length (batches it))"
    and "int (length (batches it)) < (n_batches it + 1) * batch_size it"
  shows "concat (fst (iterate it)) = drop (nat (index it * batch_size it)) (batches it)"
  using assms
proof (induction it rule: iterate.induct)
  case (1 it)
  let ?b = "batch_size it" and ?k = "n_batches it" and ?i = "index it" and ?xs = "batches it"
  show ?case
  proof (cases "?i > ?k")
    case True
    then have i: "?i = ?k + 1" using "1.prems" by simp
    have stop: "DatasetIterater_next it = (None, it\<lparr>index := 0\<rparr>)"
      using True by (simp add: DatasetIterater_next_def)
    have "int (length ?xs) \<le> ?i * ?b" using "1.prems" i by simp
    then have "length ?xs \<le> nat (?i * ?b)" by linarith
    then show ?thesis by (simp add: iterate_stop [OF stop])
  next
    case False
    then have le: "?i \<le> ?k" by simp
    let ?it' = "it\<lparr>index := ?i + 1\<rparr>"
    have nn: "0 \<le> ?i * ?b" "0 \<le> (?i + 1) * ?b"
      using "1.prems" by simp_all
    have mono: "nat (?i * ?b) \<le> nat ((?i + 1) * ?b)"
      using "1.prems" by (simp add: distrib_right)
    show ?thesis
    proof (cases "residue it \<and> ?i = ?k")
      case True
      have nxt: "DatasetIterater_next it =
          (Some (py_slice ?xs (?i * ?b) (int (length ?xs))), ?it')"
        using True by (simp add: DatasetIterater_next_def)
      have rest: "concat (fst (iterate ?it')) = drop (nat ((?i + 1) * ?b)) ?xs"
        using "1.IH" [OF nxt [symmetric] refl] "1.prems" le by simp
      have "int (length ?xs) \<le> (?i + 1) * ?b" using "1.prems" True by simp
      then have "length ?xs \<le> nat ((?i + 1) * ?b)" by linarith
      then have "concat (fst (iterate ?it')) = []" using rest by simp
      moreover have "py_slice ?xs (?i * ?b) (int (length ?xs)) = drop (nat (?i * ?b)) ?xs"
        using nn by (simp add: py_slice_nonneg)
      ultimately show ?thesis
        by (simp add: iterate_yield [OF nxt])
    next
      case False
      have nxt: "DatasetIterater_next it =
          (Some (py_slice ?xs (?i * ?b) ((?i + 1) * ?b)), ?it')"
        using False le by (auto simp: DatasetIterater_next_def)
      have rest: "concat (fst (iterate ?it')) = drop (nat ((?i + 1) * ?b)) ?xs"
        using "1.IH" [OF nxt [symmetric] refl] "1.prems" le by simp
      have "py_slice ?xs (?i * ?b) ((?i + 1) * ?b)
          = drop (nat (?i * ?b)) (take (nat ((?i + 1) * ?b)) ?xs)"
        using nn by (simp add: py_slice_nonneg)
      then have "py_slice ?xs (?i * ?b) ((?i + 1) * ?b) @ concat (fst (iterate ?it'))
          = drop (nat (?i * ?b)) ?xs"
        using rest drop_take_append_drop [OF mono] by simp
      then show ?thesis
        by (simp add: iterate_yield [OF nxt])
    qed
  qed
qed

lemma init_ok:
  assumes "0 < b" "b \<le> int (length bs)"
  shows "\<exists>it. DatasetIterater_init bs b = Inr it \<and> batch_size it = b \<and> batches it = bs
     \<and> n_batches it = int (length bs) div b \<and> index it = 0"
proof -
  have "int (length bs) div b \<noteq> 0"
    using assms pos_imp_zdiv_pos_iff [of b "int (length bs)"] by simp
  then show ?thesis
    using assms by (simp add: DatasetIterater_init_def py_floordiv_def py_mod_def)
qed

lemma iterate_total_records:
  assumes "0 < b" "b \<le> int (length bs)"
  shows "\<exists>it. DatasetIterater_init bs b = Inr it \<and> concat (fst (iterate it)) = bs"
proof -
  obtain it where it: "DatasetIterater_init bs b = Inr it" "batch_size it = b" "batches it = bs"
    "n_batches it = int (length bs) div b" "index it = 0"
    using init_ok [OF assms] by blast
  have md: "0 \<le> int (length bs) mod b" "int (length bs) mod b < b" using assms by simp_all
  have lo: "n_batches it * batch_size it \<le> int (length (batches it))"
    using it md by (simp add: minus_mod_eq_div_mult [symmetric])
  have hi: "int (length (batches it)) < (n_batches it + 1) * batch_size it"
    using it md by (simp add: distrib_right minus_mod_eq_div_mult [symmetric])
  have "0 \<le> n_batches it" using it assms by (simp add: pos_imp_zdiv_nonneg_iff)
  then have "concat (fst (iterate it)) = drop (nat (index it * batch_size it)) (batches it)"
    using iterate_concat [of it] lo hi it assms by simp
  then show ?thesis using it by simp
qed

text \<open>
  What one pass yields when the batch size does not exceed the dataset size: the
  batches, concatenated, are the dataset, so no record is lost or repeated.
\<close>

lemma iterate_total_count:
  assumes "0 < b" "b \<le> int (length bs)"
  shows "\<exists>sizes. build_iterator_sizes bs b = Inr sizes \<and> sum_list sizes = length bs"
proof -
  obtain it where "DatasetIterater_init bs b = Inr it" "concat (fst (iterate it)) = bs"
    using iterate_total_records [OF assms] by blast
  moreover have "sum_list (map length (fst (iterate it))) = length (concat (fst (iterate it)))"
    by (simp add: length_concat)
  ultimately show ?thesis by (simp add: build_iterator_sizes_def)
qed

text \<open>
  C1. The record counts of the yielded batches should sum to the dataset size for
  every positive batch size. With two records and batch size three the constructor
  computes \<open>n_batches = 0\<close> and then \<open>2 % 0\<close>: no iterator is built and no batch is
  yielded.
\<close>

theorem C1_batch_larger_than_dataset_raises:
  "build_iterator_sizes [0::nat, 1] 3 = Inl ZeroDivisionError"
  by (simp add: build_iterator_sizes_def DatasetIterater_init_def py_floordiv_def py_mod_def)

text \<open>
  C3. The reported length should be \<open>floor(n/b) + 1\<close> when \<open>n mod b\<close> is not zero.
  With four records and batch size three, \<open>residue\<close> is computed from
  \<open>4 % n_batches = 4 % 1 = 0\<close>, and the reported length is 1, not 2.
\<close>

theorem C3_len_misses_remainder_batch:
  "map_sum id DatasetIterater_len (DatasetIterater_init [0::nat, 1, 2, 3] 3) = Inr 1"
  by (simp add: DatasetIterater_init_def py_floordiv_def py_mod_def DatasetIterater_len_def)

text \<open>
  C4. A batch size greater than the dataset size should not raise a division fault.
  The constructor has no special case: it raises \<open>ZeroDivisionError\<close>.
\<close>

theorem C4_init_divides_by_zero:
  "DatasetIterater_init [0::nat, 1] 3 = Inl ZeroDivisionError"
  by (simp add: DatasetIterater_init_def py_floordiv_def py_mod_def)

text \<open>
  C5. With no remainder, a call of \<open>__next__\<close> at cursor \<open>= n_batches\<close> should
  signal exhaustion and reset the cursor. For four records and batch size two, after
  two calls the cursor is 2 \<open>= n_batches\<close>; the third call yields an empty batch and
  moves the cursor to 3.
\<close>

theorem C5_next_at_full_count_yields_empty_batch:
  "map_sum id (\<lambda>it. DatasetIterater_next (snd (DatasetIterater_next (snd (DatasetIterater_next it)))))
     (DatasetIterater_init [0::nat, 1, 2, 3] 2)
   = Inr (Some [], \<lparr>batch_size = 2, batches = [0, 1, 2, 3], n_batches = 2,
                    residue = False, index = 3\<rparr>)"
  by (simp add: DatasetIterater_init_def py_floordiv_def py_mod_def DatasetIterater_next_def
      py_slice_def slice_bound_def)

section \<open>Properties of the n-gram hashes\<close>

lemma py_getitem_in_range:
  "0 \<le> i \<Longrightarrow> i < int (length xs) \<Longrightarrow> py_getitem xs i = Inr (xs ! nat i)"
  by (simp add: py_getitem_def)

text \<open>
  C10. For an integer sequence, a position \<open>pos \<ge> 0\<close> whose predecessor is an index
  of the sequence and a positive bucket count, \<open>biGramHash\<close> returns
  \<open>(t1 * 14918087) mod buckets\<close> and \<open>triGramHash\<close> returns
  \<open>(t2 * 14918087 * 18408749 + t1 * 14918087) mod buckets\<close>, where \<open>t1\<close> and \<open>t2\<close> are
  the elements one and two places before \<open>pos\<close>, or 0 where there is none; and
  \<open>biGramHash([5,0,0,0], 0, 100) = 0\<close>.
\<close>

theorem C10_ngram_hash_formulas:
  assumes "0 \<le> pos" "0 < buckets" "pos - 1 < int (length seq)"
  shows "biGramHash (map Some seq) pos buckets
           = Inr (((if pos - 1 \<ge> 0 then seq ! nat (pos - 1) else 0) * 14918087) mod buckets)
       \<and> triGramHash (map Some seq) pos buckets
           = Inr (((if pos - 2 \<ge> 0 then seq ! nat (pos - 2) else 0) * 14918087 * 18408749
                   + (if pos - 1 \<ge> 0 then seq ! nat (pos - 1) else 0) * 14918087) mod buckets)
       \<and> biGramHash [Some 5, Some 0, Some 0, Some 0] 0 100 = Inr 0"
proof -
  have b: "buckets \<noteq> 0" using assms by simp
  have bi: "biGramHash (map Some seq) pos buckets
           = Inr (((if pos - 1 \<ge> 0 then seq ! nat (pos - 1) else 0) * 14918087) mod buckets)"
    using assms b by (simp add: biGramHash_def py_getitem_in_range py_mod_def)
  have tri: "triGramHash (map Some seq) pos buckets
           = Inr (((if pos - 2 \<ge> 0 then seq ! nat (pos - 2) else 0) * 14918087 * 18408749
                   + (if pos - 1 \<ge> 0 then seq ! nat (pos - 1) else 0) * 14918087) mod buckets)"
    using assms b by (simp add: triGramHash_def py_getitem_in_range py_mod_def)
  have ex: "biGramHash [Some 5, Some 0, Some 0, Some 0] 0 100 = Inr 0"
    by (simp add: biGramHash_def py_mod_def)
  show ?thesis using bi tri ex by blast
qed

theorem C10_ngram_hash_formulas_witness:
  "biGramHash (map Some [5, 7, 0, 0]) 2 100 = Inr 9
   \<and> triGramHash (map Some [5, 7, 0, 0]) 2 100 = Inr 24"
  using C10_ngram_hash_formulas [of 2 100 "[5, 7, 0, 0]"] by simp

section \<open>Properties of the line encoders\<close>

lemmas line_eval_defs = strip_def isspace_def tab_def py_int_def int_space_def digits_value_def
  digit_val_def isdigit_def py_slice_def slice_bound_def

lemma py_slice_prefix:
  assumes "0 \<le> P"
  shows "py_slice xs 0 P = take (nat P) xs"
proof (cases "nat P \<le> length xs")
  case True
  then show ?thesis using assms by (simp add: py_slice_def slice_bound_def min_def)
next
  case False
  then show ?thesis using assms by (simp add: py_slice_def slice_bound_def min_def)
qed

lemma pad_tokens_shape:
  assumes "0 < P" "pad_tokens vocab token P = (tk, n)"
  shows "int (length tk) = P \<and> n = min (int (length token)) P"
proof (cases "int (length token) < P")
  case True
  then show ?thesis using assms by (auto simp: pad_tokens_def)
next
  case False
  then have "py_slice token 0 P = take (nat P) token"
    using assms by (simp add: py_slice_def slice_bound_def)
  then show ?thesis using assms False by (auto simp: pad_tokens_def)
qed

lemma load_loop_member:
  assumes "load_loop enc ls acc = Inr contents" "r \<in> set contents"
  shows "r \<in> set acc \<or> (\<exists>l\<in>set ls. enc l = Inr (Some r))"
  using assms
proof (induction ls arbitrary: acc)
  case Nil
  then show ?case by simp
next
  case (Cons l ls)
  show ?case
  proof (cases "enc l")
    case (Inl e)
    then show ?thesis using Cons.prems by simp
  next
    case (Inr v)
    show ?thesis
    proof (cases v)
      case None
      then show ?thesis using Cons.IH [of acc] Cons.prems Inr by auto
    next
      case (Some r')
      then show ?thesis using Cons.IH [of "acc @ [r']"] Cons.prems Inr by auto
    qed
  qed
qed

lemma encode_line_Some:
  assumes "encode_line vocab tokenizer model_name buckets P l = Inr (Some r)"
  shows "words_line r = map (vocab_get vocab)
            (fst (pad_tokens vocab (map PStr (tokenizer (hd (py_split tab (strip l))))) P))
       \<and> seq_len r = snd (pad_tokens vocab (map PStr (tokenizer (hd (py_split tab (strip l))))) P)"
  using assms
  by (auto simp: encode_line_def split: if_splits list.splits prod.splits sum.splits option.splits)

text \<open>
  C7. Every record that the generic encoder produces with pad size \<open>P > 0\<close> has an id
  sequence of length exactly \<open>P\<close> and a true length of at most \<open>P\<close>; it is the
  encoding of a line of the file, and its true length is \<open>P\<close> when the tokenizer gave
  \<open>P\<close> tokens or more for that line.
\<close>

theorem C7_generic_record_shape:
  assumes "0 < P"
    and "load_dataset vocab tokenizer model_name buckets lines P = Inr contents"
    and "r \<in> set contents"
  shows "int (length (words_line r)) = P \<and> seq_len r \<le> P
       \<and> (\<exists>l\<in>set lines. encode_line vocab tokenizer model_name buckets P l = Inr (Some r)
            \<and> (P \<le> int (length (tokenizer (hd (py_split tab (strip l))))) \<longrightarrow> seq_len r = P))"
proof -
  obtain l where l: "l \<in> set lines"
      "encode_line vocab tokenizer model_name buckets P l = Inr (Some r)"
    using load_loop_member [OF assms(2) [unfolded load_dataset_def] assms(3)] by auto
  let ?token = "map PStr (tokenizer (hd (py_split tab (strip l))))"
  obtain tk n where p: "pad_tokens vocab ?token P = (tk, n)" by (cases "pad_tokens vocab ?token P")
  have shape: "int (length tk) = P" "n = min (int (length ?token)) P"
    using pad_tokens_shape [OF assms(1) p] by simp_all
  have r: "words_line r = map (vocab_get vocab) tk" "seq_len r = n"
    using encode_line_Some [OF l(2)] p by simp_all
  have "int (length (words_line r)) = P" using r shape by simp
  moreover have "seq_len r \<le> P" using r shape by simp
  moreover have "P \<le> int (length (tokenizer (hd (py_split tab (strip l))))) \<longrightarrow> seq_len r = P"
    using r shape by simp
  ultimately show ?thesis using l by blast
qed

theorem C7_generic_record_shape_witness:
  "load_dataset [(''a'', 0), (UNK, 1), (PAD, 2)] char_tokenizer ''TextCNN'' 0
      [''ab'' @ [tab] @ ''1''] 1 = Inr [Rec3 [Some 0] 1 1]
   \<and> int (length (words_line (Rec3 [Some 0] 1 1))) = 1
   \<and> seq_len (Rec3 [Some 0] 1 1) \<le> 1
   \<and> int (length (char_tokenizer (hd (py_split tab (strip (''ab'' @ [tab] @ ''1'')))))) = 2"
proof -
  have ld: "load_dataset [(''a'', 0), (UNK, 1), (PAD, 2)] char_tokenizer ''TextCNN'' 0
      [''ab'' @ [tab] @ ''1''] 1 = Inr [Rec3 [Some 0] 1 1]"
    by (simp add: load_dataset_def encode_line_def pad_tokens_def char_tokenizer_def
        vocab_get_def UNK_def PAD_def line_eval_defs)
  have tk: "int (length (char_tokenizer (hd (py_split tab (strip (''ab'' @ [tab] @ ''1'')))))) = 2"
    by (simp add: char_tokenizer_def line_eval_defs)
  have "(0::int) < 1" by simp
  from C7_generic_record_shape [OF this ld] tk ld show ?thesis by simp
qed

lemma encode_line_bert_Some:
  assumes "encode_line_bert tokenize convert P l = Inr (Some r)"
  shows "\<exists>y. r = (let token = CLS # tokenize (hd (py_split tab (strip l)));
                     ids = convert token
                 in if P \<noteq> 0 then
                      (if int (length token) < P then
                         BertRec (ids @ replicate (nat (P - int (length token))) 0) y
                           (int (length token))
                           (replicate (length ids) 1 @ replicate (nat (P - int (length token))) 0)
                       else BertRec (py_slice ids 0 P) y (int (length token)) (replicate (nat P) 1))
                    else BertRec ids y (int (length token)) [])"
  using assms
  by (auto simp: encode_line_bert_def Let_def split: if_splits list.splits option.splits)

lemma sum_list_replicate_int: "sum_list (replicate n (c::int)) = int n * c"
  by (induction n) (simp_all add: distrib_right)

text \<open>
  C8. Every record that the sub-word encoder produces with pad size \<open>P > 0\<close>, when
  \<open>convert_tokens_to_ids\<close> returns one id per token: the mask and the id sequence
  both have length \<open>P\<close>, the mask sums to the true length clamped to \<open>P\<close>, and the true
  length is the token count of the line plus one for the classification marker, not
  clamped to \<open>P\<close>.
\<close>

theorem C8_subword_record_shape:
  assumes "0 < P"
    and "\<forall>ts. length (convert ts) = length ts"
    and "load_dataset_bert tokenize convert lines P = Inr contents"
    and "r \<in> set contents"
  shows "int (length (bert_mask r)) = P \<and> int (length (bert_ids r)) = P
       \<and> sum_list (bert_mask r) = min (bert_seq_len r) P
       \<and> (\<exists>l\<in>set lines. encode_line_bert tokenize convert P l = Inr (Some r)
            \<and> bert_seq_len r = 1 + int (length (tokenize (hd (py_split tab (strip l))))))"
proof -
  obtain l where l: "l \<in> set lines" "encode_line_bert tokenize convert P l = Inr (Some r)"
    using load_loop_member [OF assms(3) [unfolded load_dataset_bert_def] assms(4)] by auto
  let ?token = "CLS # tokenize (hd (py_split tab (strip l)))"
  let ?ids = "convert ?token"
  have len: "length ?ids = length ?token" using assms(2) by blast
  obtain y where r: "r = (if int (length ?token) < P then
                         BertRec (?ids @ replicate (nat (P - int (length ?token))) 0) y
                           (int (length ?token))
                           (replicate (length ?ids) 1 @ replicate (nat (P - int (length ?token))) 0)
                       else BertRec (py_slice ?ids 0 P) y (int (length ?token)) (replicate (nat P) 1))"
    using encode_line_bert_Some [OF l(2)] assms(1) by (auto simp: Let_def)
  have shape: "int (length (bert_mask r)) = P \<and> int (length (bert_ids r)) = P
       \<and> sum_list (bert_mask r) = min (bert_seq_len r) P
       \<and> bert_seq_len r = int (length ?token)"
  proof (cases "int (length ?token) < P")
    case True
    then show ?thesis using r len assms(1) by (simp add: sum_list_replicate_int)
  next
    case False
    then have "py_slice ?ids 0 P = take (nat P) ?ids"
      using assms(1) by (simp add: py_slice_prefix)
    then show ?thesis using r len False assms(1) by (simp add: sum_list_replicate_int)
  qed
  then show ?thesis using l by auto
qed

theorem C8_subword_record_shape_witness:
  "load_dataset_bert char_tokenizer (map (\<lambda>t. int (length t))) [''abc'' @ [tab] @ ''1''] 3
      = Inr [BertRec [5, 1, 1] 1 4 [1, 1, 1]]
   \<and> sum_list (bert_mask (BertRec [5, 1, 1] 1 4 [1, 1, 1])) = 3
   \<and> bert_seq_len (BertRec [5, 1, 1] 1 4 [1, 1, 1]) = 4"
proof -
  have ld: "load_dataset_bert char_tokenizer (map (\<lambda>t. int (length t))) [''abc'' @ [tab] @ ''1''] 3
      = Inr [BertRec [5, 1, 1] 1 4 [1, 1, 1]]"
    by (simp add: load_dataset_bert_def encode_line_bert_def char_tokenizer_def CLS_def
        line_eval_defs eval_nat_numeral)
  have cv: "\<forall>ts. length (map (\<lambda>t. int (length t)) (ts :: string list)) = length ts" by simp
  have "(0::int) < 3" by simp
  from C8_subword_record_shape [OF this cv ld] ld show ?thesis by simp
qed

lemma vocab_get_of_get: "vocab_get vocab (of_get v) = map_of vocab UNK"
  by (cases v) (simp_all add: vocab_get_def of_get_def)

lemma padded_positions_hold_unk:
  assumes "int (length token) < P" "pad_tokens vocab token P = (tk, n)"
    and "length token \<le> i" "int i < P"
  shows "map (vocab_get vocab) tk ! i = map_of vocab UNK"
proof -
  have tk: "tk = token @ replicate (nat (P - int (length token))) (of_get (map_of vocab PAD))"
    using assms(1,2) by (auto simp: pad_tokens_def split: if_splits)
  have "i - length token < nat (P - int (length token))" using assms by linarith
  then have "tk ! i = of_get (map_of vocab PAD)"
    using assms(3) by (simp add: tk nth_append)
  moreover have "i < length tk" using assms by (simp add: tk)
  ultimately show ?thesis by (simp add: vocab_get_of_get)
qed

text \<open>
  C2. With a vocabulary that contains the padding marker, the positions of a short
  line from its true length up to \<open>P - 1\<close> should hold the id of the padding marker.
  The encoder pads the token list with the id \<open>vocab.get(PAD)\<close> itself and then looks
  every element up again; the id is no key of the vocabulary, so the padded positions
  hold the id of the unknown-token marker: for the vocabulary
  \<open>{a: 0, <UNK>: 1, <PAD>: 2}\<close>, the line \<open>a<tab>0\<close> and pad size 3 the id sequence
  is \<open>[0, 1, 1]\<close>, not \<open>[0, 2, 2]\<close>.
\<close>

theorem C2_padding_positions_hold_unk_id:
  "load_dataset [(''a'', 0), (UNK, 1), (PAD, 2)] char_tokenizer ''TextCNN'' 0
     [''a'' @ [tab] @ ''0''] 3 = Inr [Rec3 [Some 0, Some 1, Some 1] 0 1]"
  by (simp add: load_dataset_def encode_line_def pad_tokens_def char_tokenizer_def
      vocab_get_def of_get_def UNK_def PAD_def line_eval_defs eval_nat_numeral)

section \<open>Properties of \<open>build_vocab\<close>\<close>

lemma update_fresh:
  "k \<notin> fst ` set d \<Longrightarrow> AList.update k v d = d @ [(k, v)]"
  by (induction d) auto

lemma count_tokens_keys:
  "fst ` set (count_tokens d ws) = fst ` set d \<union> set ws"
  by (induction ws arbitrary: d) (auto simp: dom_update)

lemma count_tokens_distinct:
  "distinct (map fst d) \<Longrightarrow> distinct (map fst (count_tokens d ws))"
  by (induction ws arbitrary: d) (simp_all add: distinct_update)

lemma count_lines_keys:
  "fst ` set (count_lines tokenizer d ls) = fst ` set d \<union> set (corpus_tokens tokenizer ls)"
proof (induction ls arbitrary: d)
  case Nil
  then show ?case by (simp add: corpus_tokens_def)
next
  case (Cons l ls)
  show ?case
  proof (cases "strip l = []")
    case True
    then show ?thesis using Cons.IH [of d] by (simp add: corpus_tokens_def)
  next
    case False
    then show ?thesis
      using Cons.IH [of "count_tokens d (tokenizer (hd (py_split tab (strip l))))"]
      by (simp add: corpus_tokens_def count_tokens_keys Un_assoc)
  qed
qed

lemma count_lines_distinct:
  "distinct (map fst d) \<Longrightarrow> distinct (map fst (count_lines tokenizer d ls))"
  by (induction ls arbitrary: d) (simp_all add: count_tokens_distinct)

lemma distinct_keys_sort_key:
  assumes "distinct (map fst xs)"
  shows "distinct (map fst (sort_key f xs))"
  using assms by (simp add: distinct_map)

lemma assign_ids_fresh:
  assumes "distinct (map fst d @ map fst ws)"
  shows "assign_ids d idx ws = d @ zip (map fst ws) (map (\<lambda>i. idx + int i) [0..<length ws])"
  using assms
proof (induction ws arbitrary: d idx)
  case Nil
  then show ?case by simp
next
  case (Cons w ws)
  have fresh: "fst w \<notin> fst ` set d" using Cons.prems by auto
  have d': "distinct (map fst (d @ [(fst w, idx)]) @ map fst ws)" using Cons.prems by auto
  have shift: "map (\<lambda>i. idx + int i) [0..<Suc (length ws)]
      = idx # map (\<lambda>i. (idx + 1) + int i) [0..<length ws]"
    by (simp add: upt_conv_Cons map_Suc_upt [symmetric] del: upt_Suc)
  have "assign_ids d idx (w # ws) = assign_ids (d @ [(fst w, idx)]) (idx + 1) ws"
    by (simp add: update_fresh [OF fresh])
  also have "\<dots> = (d @ [(fst w, idx)])
      @ zip (map fst ws) (map (\<lambda>i. (idx + 1) + int i) [0..<length ws])"
    by (rule Cons.IH [OF d'])
  also have "\<dots> = d @ zip (map fst (w # ws)) (map (\<lambda>i. idx + int i) [0..<length (w # ws)])"
    by (simp add: shift del: upt_Suc)
  finally show ?case .
qed

lemma build_vocab_shape:
  assumes "UNK \<notin> set (corpus_tokens tokenizer lines)"
    and "PAD \<notin> set (corpus_tokens tokenizer lines)"
    and "0 \<le> max_size"
  shows "\<exists>ws. build_vocab lines tokenizer max_size min_freq
            = zip ws (map int [0..<length ws]) @ [(UNK, int (length ws)), (PAD, int (length ws) + 1)]
          \<and> distinct ws \<and> UNK \<notin> set ws \<and> PAD \<notin> set ws \<and> int (length ws) \<le> max_size"
proof -
  define counts where "counts = count_lines tokenizer [] lines"
  define sorted where
    "sorted = sort_key (\<lambda>x. - snd x) (filter (\<lambda>item. snd item \<ge> min_freq) counts)"
  define vl where "vl = py_slice sorted 0 max_size"
  define ws where "ws = map fst vl"
  define v0 where "v0 = zip ws (map int [0..<length ws])"
  define n where "n = int (length ws)"
  have vl: "vl = take (nat max_size) sorted"
    using assms(3) by (simp add: vl_def py_slice_prefix)
  have keys: "fst ` set counts = set (corpus_tokens tokenizer lines)"
    by (simp add: counts_def count_lines_keys)
  have "distinct (map fst counts)" by (simp add: counts_def count_lines_distinct)
  then have "distinct (map fst (filter (\<lambda>item. snd item \<ge> min_freq) counts))"
    by (rule distinct_map_filter)
  then have "distinct (map fst sorted)" unfolding sorted_def by (rule distinct_keys_sort_key)
  then have dist: "distinct ws" by (simp add: ws_def vl take_map [symmetric])
  have "set sorted \<subseteq> set counts" by (auto simp: sorted_def)
  moreover have "set vl \<subseteq> set sorted" unfolding vl by (rule set_take_subset)
  ultimately have "set ws \<subseteq> fst ` set counts" by (auto simp: ws_def)
  then have sub: "set ws \<subseteq> set (corpus_tokens tokenizer lines)" using keys by simp
  have unk: "UNK \<notin> set ws" and pad: "PAD \<notin> set ws" using sub assms(1,2) by auto
  have len: "int (length ws) \<le> max_size" using assms(3) by (simp add: ws_def vl)
  have "distinct (map fst [] @ map fst vl)" using dist by (simp add: ws_def)
  then have "assign_ids [] 0 vl = [] @ zip (map fst vl) (map (\<lambda>i. 0 + int i) [0..<length vl])"
    by (rule assign_ids_fresh)
  then have a: "assign_ids [] 0 vl = v0" by (simp add: v0_def ws_def)
  have k0: "fst ` set v0 = set ws"
  proof -
    have "map fst v0 = ws" by (simp add: v0_def)
    then have "set (map fst v0) = set ws" by simp
    then show ?thesis by simp
  qed
  have l0: "int (length v0) = n" by (simp add: v0_def n_def)
  have "UNK \<notin> fst ` set v0" using unk k0 by simp
  then have u1: "AList.update UNK n v0 = v0 @ [(UNK, n)]" by (rule update_fresh)
  have ne: "PAD \<noteq> UNK" by (simp add: PAD_def UNK_def)
  have "PAD \<notin> fst ` set (v0 @ [(UNK, n)])" using pad k0 ne by simp
  then have u2: "AList.update PAD (n + 1) (v0 @ [(UNK, n)]) = (v0 @ [(UNK, n)]) @ [(PAD, n + 1)]"
    by (rule update_fresh)
  have "build_vocab lines tokenizer max_size min_freq
      = AList.update PAD (int (length v0) + 1) (AList.update UNK (int (length v0)) v0)"
    unfolding build_vocab_def Let_def counts_def [symmetric] sorted_def [symmetric]
      vl_def [symmetric] a ..
  also have "\<dots> = v0 @ [(UNK, n), (PAD, n + 1)]" by (simp add: l0 u1 u2)
  finally have "build_vocab lines tokenizer max_size min_freq
      = zip ws (map int [0..<length ws]) @ [(UNK, int (length ws)), (PAD, int (length ws) + 1)]"
    by (simp add: v0_def n_def)
  then show ?thesis using dist unk pad len by blast
qed

lemma map_of_zip_fresh:
  "k \<notin> set ws \<Longrightarrow> map_of (zip ws is) k = None"
  by (metis in_set_zipE map_of_eq_None_iff fst_conv imageE surjective_pairing)

text \<open>
  C6, as amended. When neither reserved marker occurs among the tokens of the corpus
  and \<open>max_size\<close> is not negative, the vocabulary that \<open>build_vocab\<close> returns has
  distinct keys and distinct ids, its ids are exactly \<open>0 .. size - 1\<close>, its size is at
  most \<open>max_size + 2\<close>, each marker has exactly one entry, and the unknown-token
  marker has id \<open>size - 2\<close>, the padding marker \<open>size - 1\<close>.
\<close>

theorem C6_vocab_invariants:
  assumes "UNK \<notin> set (corpus_tokens tokenizer lines)"
    and "PAD \<notin> set (corpus_tokens tokenizer lines)"
    and "0 \<le> max_size"
  shows "(let v = build_vocab lines tokenizer max_size min_freq
          in distinct (map fst v) \<and> distinct (map snd v)
             \<and> set (map snd v) = {0..<int (length v)}
             \<and> int (length v) \<le> max_size + 2
             \<and> count_list (map fst v) UNK = 1 \<and> count_list (map fst v) PAD = 1
             \<and> map_of v UNK = Some (int (length v) - 2)
             \<and> map_of v PAD = Some (int (length v) - 1))"
proof -
  obtain ws where v: "build_vocab lines tokenizer max_size min_freq
        = zip ws (map int [0..<length ws]) @ [(UNK, int (length ws)), (PAD, int (length ws) + 1)]"
    and ws: "distinct ws" "UNK \<notin> set ws" "PAD \<notin> set ws" "int (length ws) \<le> max_size"
    using build_vocab_shape [OF assms] by blast
  define v where "v = build_vocab lines tokenizer max_size min_freq"
  define k where "k = length ws"
  have ne: "UNK \<noteq> PAD" by (simp add: PAD_def UNK_def)
  have veq: "v = zip ws (map int [0..<k]) @ [(UNK, int k), (PAD, int k + 1)]"
    using v by (simp add: v_def k_def)
  have keys: "map fst v = ws @ [UNK, PAD]" by (simp add: veq k_def)
  have ids: "map snd v = map int [0..<k + 2]" by (simp add: veq k_def)
  have len: "length v = k + 2" by (simp add: veq k_def)
  have 1: "distinct (map fst v)" using ws ne by (simp add: keys)
  have "inj_on int (set [0..<k + 2])" by (rule inj_onI) simp
  then have 2: "distinct (map snd v)" unfolding ids distinct_map using distinct_upt by blast
  have "set (map snd v) = int ` {0..<k + 2}" unfolding ids by (simp only: set_map set_upt)
  also have "\<dots> = {0..<int (k + 2)}" by (simp only: image_int_atLeastLessThan of_nat_0)
  finally have 3: "set (map snd v) = {0..<int (length v)}" by (simp only: len)
  have 4: "int (length v) \<le> max_size + 2" using ws(4) by (simp add: len k_def)
  have 5: "count_list (map fst v) UNK = 1" using ws ne by (simp add: keys)
  have 6: "count_list (map fst v) PAD = 1" using ws ne by (simp add: keys)
  have z: "map_of (zip ws (map int [0..<k])) UNK = None" "map_of (zip ws (map int [0..<k])) PAD = None"
    using ws by (simp_all add: map_of_zip_fresh)
  have "map_of v UNK = Some (int k)" using ne z by (simp add: veq map_add_def)
  then have 7: "map_of v UNK = Some (int (length v) - 2)" by (simp add: len)
  have "map_of v PAD = Some (int k + 1)" using ne z by (simp add: veq map_add_def)
  then have 8: "map_of v PAD = Some (int (length v) - 1)" by (simp add: len)
  show ?thesis unfolding Let_def v_def [symmetric] using 1 2 3 4 5 6 7 8 by blast
qed

theorem C6_vocab_invariants_witness:
  "UNK \<notin> set (corpus_tokens word_tokenizer [''cat sat'' @ [tab] @ ''0'', ''the cat'' @ [tab] @ ''1''])
   \<and> PAD \<notin> set (corpus_tokens word_tokenizer [''cat sat'' @ [tab] @ ''0'', ''the cat'' @ [tab] @ ''1''])
   \<and> build_vocab [''cat sat'' @ [tab] @ ''0'', ''the cat'' @ [tab] @ ''1''] word_tokenizer 10 1
       = [(''cat'', 0), (''sat'', 1), (''the'', 2), (''<UNK>'', 3), (''<PAD>'', 4)]
   \<and> (let v = build_vocab [''cat sat'' @ [tab] @ ''0'', ''the cat'' @ [tab] @ ''1''] word_tokenizer 10 1
      in distinct (map fst v) \<and> distinct (map snd v)
         \<and> set (map snd v) = {0..<int (length v)}
         \<and> int (length v) \<le> 10 + 2
         \<and> count_list (map fst v) UNK = 1 \<and> count_list (map fst v) PAD = 1
         \<and> map_of v UNK = Some (int (length v) - 2)
         \<and> map_of v PAD = Some (int (length v) - 1))"
proof -
  have t: "corpus_tokens word_tokenizer [''cat sat'' @ [tab] @ ''0'', ''the cat'' @ [tab] @ ''1'']
      = [''cat'', ''sat'', ''the'', ''cat'']"
    by (simp add: corpus_tokens_def word_tokenizer_def line_eval_defs)
  have u: "UNK \<notin> set (corpus_tokens word_tokenizer [''cat sat'' @ [tab] @ ''0'', ''the cat'' @ [tab] @ ''1''])"
    unfolding t by (simp add: UNK_def)
  have p: "PAD \<notin> set (corpus_tokens word_tokenizer [''cat sat'' @ [tab] @ ''0'', ''the cat'' @ [tab] @ ''1''])"
    unfolding t by (simp add: PAD_def)
  have v: "build_vocab [''cat sat'' @ [tab] @ ''0'', ''the cat'' @ [tab] @ ''1''] word_tokenizer 10 1
       = [(''cat'', 0), (''sat'', 1), (''the'', 2), (''<UNK>'', 3), (''<PAD>'', 4)]"
    by (simp add: build_vocab_def word_tokenizer_def UNK_def PAD_def line_eval_defs)
  have m: "(0::int) \<le> 10" by simp
  from C6_vocab_invariants [OF u p m, of 1] u p v show ?thesis by blast
qed

text \<open>
  C6 as stated fails when a reserved marker is a token of the corpus: the final
  \<open>update\<close> overwrites the id the marker already has. For the one line
  \<open><PAD> a<tab>0\<close> and the word tokenizer the vocabulary has three entries with the
  ids 3, 1 and 2.
\<close>

theorem C6_reserved_token_in_corpus_counterexample:
  "build_vocab [''<PAD> a'' @ [tab] @ ''0''] word_tokenizer 10 1
     = [(''<PAD>'', 3), (''a'', 1), (''<UNK>'', 2)]
   \<and> set (map snd (build_vocab [''<PAD> a'' @ [tab] @ ''0''] word_tokenizer 10 1))
       \<noteq> {0..<int (length (build_vocab [''<PAD> a'' @ [tab] @ ''0''] word_tokenizer 10 1))}
   \<and> map_of (build_vocab [''<PAD> a'' @ [tab] @ ''0''] word_tokenizer 10 1) PAD
       \<noteq> Some (int (length (build_vocab [''<PAD> a'' @ [tab] @ ''0''] word_tokenizer 10 1)) - 1)"
proof -
  have v: "build_vocab [''<PAD> a'' @ [tab] @ ''0''] word_tokenizer 10 1
     = [(''<PAD>'', 3), (''a'', 1), (''<UNK>'', 2)]"
    by (simp add: build_vocab_def word_tokenizer_def UNK_def PAD_def line_eval_defs)
  have "(3::int) \<notin> {0..<3}" by simp
  then have "set (map snd [(''<PAD>'', 3::int), (''a'', 1), (''<UNK>'', 2)]) \<noteq> {0..<3}"
    by auto
  then show ?thesis unfolding v by (simp add: PAD_def)
qed

section \<open>Errors of the generic line encoder\<close>

lemma two_fields:
  "length xs = 2 \<Longrightarrow> \<exists>a b. xs = [a, b]"
  by (cases xs; cases "tl xs") auto

lemma malformed_line_split:
  "\<not> malformed_line line \<Longrightarrow>
     \<exists>content label y. py_split tab line = [content, label] \<and> py_int label = Some y"
  unfolding malformed_line_def using two_fields [of "py_split tab line"] by auto

lemma biGramHash_ok:
  assumes "buckets \<noteq> 0" "\<forall>x\<in>set wl. x \<noteq> None" "int i \<le> int (length wl)"
  shows "\<exists>v. biGramHash wl (int i) buckets = Inr v"
proof (cases "int i - 1 \<ge> 0")
  case True
  then have g: "py_getitem wl (int i - 1) = Inr (wl ! nat (int i - 1))"
    using assms(3) by (simp add: py_getitem_in_range)
  have "nat (int i - 1) < length wl" using True assms(3) by linarith
  then have "wl ! nat (int i - 1) \<in> set wl" by (rule nth_mem)
  then obtain t1 where "wl ! nat (int i - 1) = Some t1" using assms(2) by auto
  then show ?thesis using True g assms(1) by (simp add: biGramHash_def py_mod_def)
next
  case False
  then show ?thesis using assms(1) by (simp add: biGramHash_def py_mod_def)
qed

lemma getitem_Some:
  assumes "\<forall>x\<in>set wl. x \<noteq> None" "j < int (length wl)"
  shows "\<exists>t. (if j \<ge> 0 then py_getitem wl j else Inr (Some 0)) = Inr (Some (t::int))"
proof (cases "j \<ge> 0")
  case True
  then have g: "py_getitem wl j = Inr (wl ! nat j)"
    using assms(2) by (simp add: py_getitem_in_range)
  have "nat j < length wl" using True assms(2) by linarith
  then have "wl ! nat j \<in> set wl" by (rule nth_mem)
  then obtain t where "wl ! nat j = Some t" using assms(1) by auto
  then show ?thesis using True g by simp
next
  case False
  then show ?thesis by simp
qed

lemma triGramHash_ok:
  assumes "buckets \<noteq> 0" "\<forall>x\<in>set wl. x \<noteq> None" "int i \<le> int (length wl)"
  shows "\<exists>v. triGramHash wl (int i) buckets = Inr v"
proof -
  obtain t1 where t1: "(if int i - 1 \<ge> 0 then py_getitem wl (int i - 1) else Inr (Some 0)) = Inr (Some t1)"
    using getitem_Some [OF assms(2), of "int i - 1"] assms(3) by auto
  obtain t2 where t2: "(if int i - 2 \<ge> 0 then py_getitem wl (int i - 2) else Inr (Some 0)) = Inr (Some t2)"
    using getitem_Some [OF assms(2), of "int i - 2"] assms(3) by auto
  show ?thesis unfolding triGramHash_def t1 t2 using assms(1) by (simp add: py_mod_def)
qed

lemma ngram_loop_ok:
  assumes "buckets \<noteq> 0" "\<forall>x\<in>set wl. x \<noteq> None" "\<forall>i\<in>set is. int i \<le> int (length wl)"
  shows "\<exists>bg tg. ngram_loop wl buckets is b t = Inr (bg, tg)"
  using assms(3)
proof (induction "is" arbitrary: b t)
  case Nil
  then show ?case by simp
next
  case (Cons i rest)
  have i: "int i \<le> int (length wl)" using Cons.prems by simp
  obtain v where v: "biGramHash wl (int i) buckets = Inr v"
    using biGramHash_ok [OF assms(1,2) i] by blast
  obtain w where w: "triGramHash wl (int i) buckets = Inr w"
    using triGramHash_ok [OF assms(1,2) i] by blast
  have "\<forall>i\<in>set rest. int i \<le> int (length wl)" using Cons.prems by simp
  from Cons.IH [OF this, of "b @ [v]" "t @ [w]"] show ?case by (simp add: v w)
qed

lemma vocab_get_Some:
  "map_of vocab UNK \<noteq> None \<Longrightarrow> vocab_get vocab word \<noteq> None"
  by (cases word) (auto simp: vocab_get_def split: option.splits)

lemma encode_line_blank:
  "strip l = [] \<Longrightarrow> encode_line vocab tokenizer model_name buckets P l = Inr None"
  by (simp add: encode_line_def)

lemma ngrams_of_line_ok:
  assumes "buckets \<noteq> 0" "map_of vocab UNK \<noteq> None"
    and "pad_tokens vocab token P = (tk, n)"
  shows "\<exists>bg tg. ngram_loop (map (vocab_get vocab) tk) buckets [0..<nat P] [] [] = Inr (bg, tg)"
proof (rule ngram_loop_ok [OF assms(1)])
  show "\<forall>x\<in>set (map (vocab_get vocab) tk). x \<noteq> None"
    using vocab_get_Some [OF assms(2)] by auto
  show "\<forall>i\<in>set [0..<nat P]. int i \<le> int (length (map (vocab_get vocab) tk))"
  proof (cases "0 < P")
    case True
    then have "int (length tk) = P" using pad_tokens_shape [OF True assms(3)] by simp
    then show ?thesis by auto
  next
    case False
    then show ?thesis by simp
  qed
qed

lemma encode_line_malformed:
  assumes "model_name = ''FastText'' \<longrightarrow> buckets \<noteq> 0 \<and> map_of vocab UNK \<noteq> None"
    and "strip l \<noteq> []" "malformed_line (strip l)"
  shows "encode_line vocab tokenizer model_name buckets P l = Inl ValueError"
proof (cases "length (py_split tab (strip l)) = 2")
  case False
  then have "\<forall>a b. py_split tab (strip l) \<noteq> [a, b]" by auto
  then show ?thesis using assms(2)
    by (auto simp: encode_line_def split: list.splits)
next
  case True
  then obtain content label where sp: "py_split tab (strip l) = [content, label]"
    using two_fields by blast
  have lab: "py_int label = None" using assms(3) True sp by (simp add: malformed_line_def)
  obtain tk n where p: "pad_tokens vocab (map PStr (tokenizer content)) P = (tk, n)"
    by (cases "pad_tokens vocab (map PStr (tokenizer content)) P")
  show ?thesis
  proof (cases "model_name = ''FastText''")
    case True
    then obtain bg tg where
        "ngram_loop (map (vocab_get vocab) tk) buckets [0..<nat P] [] [] = Inr (bg, tg)"
      using ngrams_of_line_ok [OF _ _ p] assms(1) by blast
    then show ?thesis using True assms(2) sp p lab by (simp add: encode_line_def)
  next
    case False
    then show ?thesis using assms(2) sp p lab by (simp add: encode_line_def)
  qed
qed

lemma encode_line_wellformed:
  assumes "model_name = ''FastText'' \<longrightarrow> buckets \<noteq> 0 \<and> map_of vocab UNK \<noteq> None"
    and "strip l \<noteq> []" "\<not> malformed_line (strip l)"
  shows "\<exists>r. encode_line vocab tokenizer model_name buckets P l = Inr (Some r)"
proof -
  obtain content label y where sp: "py_split tab (strip l) = [content, label]"
    and lab: "py_int label = Some y"
    using malformed_line_split [OF assms(3)] by blast
  obtain tk n where p: "pad_tokens vocab (map PStr (tokenizer content)) P = (tk, n)"
    by (cases "pad_tokens vocab (map PStr (tokenizer content)) P")
  show ?thesis
  proof (cases "model_name = ''FastText''")
    case True
    then obtain bg tg where
        "ngram_loop (map (vocab_get vocab) tk) buckets [0..<nat P] [] [] = Inr (bg, tg)"
      using ngrams_of_line_ok [OF _ _ p] assms(1) by blast
    then show ?thesis using True assms(2) sp p lab by (simp add: encode_line_def)
  next
    case False
    then show ?thesis using assms(2) sp p lab by (simp add: encode_line_def)
  qed
qed

lemma load_loop_all_ok:
  assumes "\<forall>l\<in>set ls. enc l = Inr None \<or> (\<exists>r. enc l = Inr (Some r))"
  shows "\<exists>contents. load_loop enc ls acc = Inr contents
           \<and> length contents = length acc + length (filter (\<lambda>l. enc l \<noteq> Inr None) ls)"
  using assms
proof (induction ls arbitrary: acc)
  case Nil
  then show ?case by simp
next
  case (Cons l ls)
  have rest: "\<forall>l\<in>set ls. enc l = Inr None \<or> (\<exists>r. enc l = Inr (Some r))"
    using Cons.prems by simp
  consider "enc l = Inr None" | r where "enc l = Inr (Some r)" using Cons.prems by auto
  then show ?case
  proof cases
    case 1
    then show ?thesis using Cons.IH [OF rest, of acc] by simp
  next
    case 2
    then show ?thesis using Cons.IH [OF rest, of "acc @ [r]"] by simp
  qed
qed

lemma load_loop_raises:
  assumes "\<forall>l\<in>set ls. enc l = Inl e \<or> enc l = Inr None \<or> (\<exists>r. enc l = Inr (Some r))"
    and "\<exists>l\<in>set ls. enc l = Inl e"
  shows "load_loop enc ls acc = Inl e"
  using assms
proof (induction ls arbitrary: acc)
  case Nil
  then show ?case by simp
next
  case (Cons l ls)
  have all: "\<forall>l\<in>set ls. enc l = Inl e \<or> enc l = Inr None \<or> (\<exists>r. enc l = Inr (Some r))"
    using Cons.prems(1) by simp
  show ?case
  proof (cases "enc l = Inl e")
    case True
    then show ?thesis by simp
  next
    case False
    then have ex: "\<exists>l\<in>set ls. enc l = Inl e" using Cons.prems(2) by auto
    consider "enc l = Inr None" | r where "enc l = Inr (Some r)"
      using Cons.prems(1) False by auto
    then show ?thesis
    proof cases
      case 1
      then show ?thesis using Cons.IH [OF all ex, of acc] by simp
    next
      case 2
      then show ?thesis using Cons.IH [OF all ex, of "acc @ [r]"] by simp
    qed
  qed
qed

text \<open>
  C9, as amended. When hashing cannot fail (off the FastText path, or with a bucket
  count that is not zero and a vocabulary that contains the unknown-token marker),
  encoding raises \<open>ValueError\<close> if and only if some line that is not blank, once
  stripped and split at every tab, does not have exactly two fields or has a second
  field that \<open>int\<close> rejects. When no line is such, encoding returns one record for
  every line that is not blank, so no line is skipped; and a token that the
  vocabulary lacks is looked up as the unknown-token marker, never raising.
\<close>

theorem C9_parse_error_iff_malformed_line:
  assumes "model_name = ''FastText'' \<longrightarrow> buckets \<noteq> 0 \<and> map_of vocab UNK \<noteq> None"
  shows "(load_dataset vocab tokenizer model_name buckets lines P = Inl ValueError
            \<longleftrightarrow> (\<exists>l\<in>set lines. strip l \<noteq> [] \<and> malformed_line (strip l)))
       \<and> ((\<forall>l\<in>set lines. strip l = [] \<or> \<not> malformed_line (strip l)) \<longrightarrow>
            (\<exists>contents. load_dataset vocab tokenizer model_name buckets lines P = Inr contents
               \<and> length contents = length (filter (\<lambda>l. strip l \<noteq> []) lines)))
       \<and> (map_of vocab w = None \<longrightarrow> vocab_get vocab (PStr w) = map_of vocab UNK)"
proof -
  let ?enc = "encode_line vocab tokenizer model_name buckets P"
  have blank: "?enc l = Inr None" if "strip l = []" for l
    using that by (rule encode_line_blank)
  have bad: "?enc l = Inl ValueError" if "strip l \<noteq> []" "malformed_line (strip l)" for l
    using encode_line_malformed [OF assms that] .
  have good: "\<exists>r. ?enc l = Inr (Some r)" if "strip l \<noteq> []" "\<not> malformed_line (strip l)" for l
    using encode_line_wellformed [OF assms that] .
  have cases: "?enc l = Inl ValueError \<or> ?enc l = Inr None \<or> (\<exists>r. ?enc l = Inr (Some r))" for l
    using blank [of l] bad [of l] good [of l] by blast
  have ok: "\<exists>contents. load_dataset vocab tokenizer model_name buckets lines P = Inr contents
               \<and> length contents = length (filter (\<lambda>l. strip l \<noteq> []) lines)"
    if wf: "\<forall>l\<in>set lines. strip l = [] \<or> \<not> malformed_line (strip l)"
  proof -
    have all: "\<forall>l\<in>set lines. ?enc l = Inr None \<or> (\<exists>r. ?enc l = Inr (Some r))"
      using wf blank good by blast
    have "?enc l \<noteq> Inr None \<longleftrightarrow> strip l \<noteq> []" if "l \<in> set lines" for l
    proof (cases "strip l = []")
      case True
      then show ?thesis using blank by simp
    next
      case False
      then have "\<not> malformed_line (strip l)" using wf that by blast
      then obtain r where "?enc l = Inr (Some r)" using good False by blast
      then show ?thesis using False by simp
    qed
    then have "filter (\<lambda>l. ?enc l \<noteq> Inr None) lines = filter (\<lambda>l. strip l \<noteq> []) lines"
      by (intro filter_cong) auto
    then show ?thesis
      using load_loop_all_ok [OF all, of "[]"] by (simp add: load_dataset_def)
  qed
  have 1: "load_dataset vocab tokenizer model_name buckets lines P = Inl ValueError
            \<longleftrightarrow> (\<exists>l\<in>set lines. strip l \<noteq> [] \<and> malformed_line (strip l))"
  proof
    assume raised: "load_dataset vocab tokenizer model_name buckets lines P = Inl ValueError"
    show "\<exists>l\<in>set lines. strip l \<noteq> [] \<and> malformed_line (strip l)"
    proof (rule ccontr)
      assume "\<not> (\<exists>l\<in>set lines. strip l \<noteq> [] \<and> malformed_line (strip l))"
      then have "\<forall>l\<in>set lines. strip l = [] \<or> \<not> malformed_line (strip l)" by blast
      from ok [OF this] raised show False by auto
    qed
  next
    assume "\<exists>l\<in>set lines. strip l \<noteq> [] \<and> malformed_line (strip l)"
    then have ex: "\<exists>l\<in>set lines. ?enc l = Inl ValueError" using bad by blast
    have all: "\<forall>l\<in>set lines. ?enc l = Inl ValueError \<or> ?enc l = Inr None
        \<or> (\<exists>r. ?enc l = Inr (Some r))"
      using cases by blast
    show "load_dataset vocab tokenizer model_name buckets lines P = Inl ValueError"
      unfolding load_dataset_def by (rule load_loop_raises [OF all ex])
  qed
  have 3: "map_of vocab w = None \<longrightarrow> vocab_get vocab (PStr w) = map_of vocab UNK"
    by (simp add: vocab_get_def)
  show ?thesis using 1 ok 3 by blast
qed

theorem C9_parse_error_iff_malformed_line_witness:
  "strip ''b'' \<noteq> [] \<and> malformed_line (strip ''b'')
   \<and> load_dataset [(''a'', 0), (UNK, 1), (PAD, 2)] char_tokenizer ''FastText'' 100
        [''a'' @ [tab] @ ''0'', ''b''] 2 = Inl ValueError"
proof -
  have h: "''FastText'' = ''FastText'' \<longrightarrow>
      (100::int) \<noteq> 0 \<and> map_of [(''a'', 0::int), (UNK, 1), (PAD, 2)] UNK \<noteq> None"
    by (simp add: UNK_def)
  have m: "strip ''b'' \<noteq> [] \<and> malformed_line (strip ''b'')"
    by (simp add: malformed_line_def line_eval_defs)
  then have "\<exists>l\<in>set [''a'' @ [tab] @ ''0'', ''b'']. strip l \<noteq> [] \<and> malformed_line (strip l)"
    by simp
  then have "load_dataset [(''a'', 0), (UNK, 1), (PAD, 2)] char_tokenizer ''FastText'' 100
        [''a'' @ [tab] @ ''0'', ''b''] 2 = Inl ValueError"
    using C9_parse_error_iff_malformed_line [OF h, of char_tokenizer "[''a'' @ [tab] @ ''0'', ''b'']" 2]
    by blast
  then show ?thesis using m by blast
qed

text \<open>
  C9 as stated, with the line split at its first tab, fails on a line with two tabs
  before the label: the text after the first tab of \<open>a<tab><tab>1\<close> is
  \<open><tab>1\<close>, which \<open>int\<close> parses as 1, yet unpacking the three fields of
  \<open>line.split('\t')\<close> raises \<open>ValueError\<close>.
\<close>

theorem C9_two_tabs_counterexample:
  "strip (''a'' @ [tab, tab] @ ''1'') \<noteq> []
   \<and> first_tab_label (strip (''a'' @ [tab, tab] @ ''1'')) = Some (tab # ''1'')
   \<and> py_int (tab # ''1'') = Some 1
   \<and> \<not> malformed_first_tab (strip (''a'' @ [tab, tab] @ ''1''))
   \<and> load_dataset [(''a'', 0), (UNK, 1), (PAD, 2)] char_tokenizer ''TextCNN'' 0
        [''a'' @ [tab, tab] @ ''1''] 3 = Inl ValueError"
  by (simp add: malformed_first_tab_def first_tab_label_def load_dataset_def encode_line_def
      line_eval_defs)

end
